theory Spec2Isabelle
  imports
    Main
    "HOL-Library.Char_ord"
    "HOL-Library.List_Lexorder"
    "HOL-Library.Product_Lexorder"
    "HOL-Library.AList"
    "HOL-Library.Monad_Syntax"
begin

section \<open>Strings\<close>

text \<open>
  Python strings are modelled as \<^typ>\<open>string\<close>, one \<^typ>\<open>char\<close> per code point, which
  covers ASCII text. Strings are compared as Python compares them: characters by code
  point (\<open>Char_ord\<close>), strings lexicographically (\<open>List_Lexorder\<close>), tuples
  lexicographically (\<open>Product_Lexorder\<close>). A result of type \<open>'a option\<close> is \<open>None\<close>
  where the Python code raises an exception (here only \<open>IndexError\<close> can arise).
\<close>

definition is_upper :: "char \<Rightarrow> bool" where
  "is_upper c = (65 \<le> (of_char c :: nat) \<and> (of_char c :: nat) \<le> 90)"

definition is_space :: "char \<Rightarrow> bool" where
  \<comment> \<open>the ASCII characters for which \<open>str.isspace\<close> holds: TAB, LF, VT, FF, CR, FS, GS, RS, US, SPACE\<close>
  "is_space c = ((of_char c :: nat) \<in> {9, 10, 11, 12, 13, 28, 29, 30, 31, 32})"

definition lower_char :: "char \<Rightarrow> char" where
  "lower_char c = (if is_upper c then char_of ((of_char c :: nat) + 32) else c)"

definition lower :: "string \<Rightarrow> string" where
  \<comment> \<open>\<open>str.lower()\<close>\<close>
  "lower s = map lower_char s"

definition strip :: "string \<Rightarrow> string" where
  \<comment> \<open>\<open>str.strip()\<close>: leading and trailing whitespace removed\<close>
  "strip s = rev (dropWhile is_space (rev (dropWhile is_space s)))"

fun split_from :: "string \<Rightarrow> string \<Rightarrow> string list" where
  \<comment> \<open>scanning for \<open>str.split()\<close>; the second argument is the token read so far\<close>
  "split_from [] tok = (if tok = [] then [] else [tok])"
| "split_from (c # cs) tok =
     (if is_space c then (if tok = [] then split_from cs [] else tok # split_from cs [])
      else split_from cs (tok @ [c]))"

definition py_split :: "string \<Rightarrow> string list" where
  \<comment> \<open>\<open>str.split()\<close> without arguments: the maximal runs of non-whitespace\<close>
  "py_split s = split_from s []"

definition py_index :: "'a list \<Rightarrow> int \<Rightarrow> 'a option" where
  \<comment> \<open>\<open>xs[i]\<close>: a negative index counts from the end; out of range raises \<open>IndexError\<close>\<close>
  "py_index xs i =
     (if 0 \<le> i \<and> i < int (length xs) then Some (xs ! nat i)
      else if i < 0 \<and> - int (length xs) \<le> i then Some (xs ! nat (int (length xs) + i))
      else None)"

definition py_slice_to :: "int \<Rightarrow> 'a list \<Rightarrow> 'a list" where
  \<comment> \<open>\<open>xs[:k]\<close>: a negative bound counts from the end\<close>
  "py_slice_to k xs =
     (if 0 \<le> k then take (nat k) xs else take (length xs - nat (- k)) xs)"

definition is_lowercase :: "string \<Rightarrow> bool" where
  "is_lowercase s = (\<forall>c \<in> set s. \<not> is_upper c)"

section \<open>Edit distance (Spell.py, Search_Suggestions.py: levenshtein)\<close>

fun lev_row :: "char \<Rightarrow> int list \<Rightarrow> (nat \<times> char) list \<Rightarrow> int list \<Rightarrow> int list option" where
  \<comment> \<open>the inner loop \<open>for j, c2 in enumerate(s2)\<close>, extending \<open>current\<close>\<close>
  "lev_row c1 previous [] current = Some current"
| "lev_row c1 previous ((j, c2) # rest) current = do {
     p1 \<leftarrow> py_index previous (int j + 1);
     cj \<leftarrow> py_index current (int j);
     p0 \<leftarrow> py_index previous (int j);
     let ins = p1 + 1;
     let dele = cj + 1;
     let sub = p0 + (if c1 \<noteq> c2 then 1 else 0);
     lev_row c1 previous rest (current @ [min ins (min dele sub)])
   }"

fun lev_rows :: "(nat \<times> char) list \<Rightarrow> string \<Rightarrow> int list \<Rightarrow> int list option" where
  \<comment> \<open>the outer loop \<open>for i, c1 in enumerate(s1)\<close>, returning the last \<open>previous\<close>\<close>
  "lev_rows [] s2 previous = Some previous"
| "lev_rows ((i, c1) # rest) s2 previous = do {
     current \<leftarrow> lev_row c1 previous (enumerate 0 s2) [int i + 1];
     lev_rows rest s2 current
   }"

function levenshtein :: "string \<Rightarrow> string \<Rightarrow> int option" where
  "levenshtein s1 s2 =
     (if length s1 < length s2 then levenshtein s2 s1
      else if length s2 = 0 then Some (int (length s1))
      else do {
        previous \<leftarrow> lev_rows (enumerate 0 s1) s2 (map int [0 ..< length s2 + 1]);
        py_index previous (- 1)
      })"
  by pat_completeness auto
termination
  by (relation "measure (\<lambda>(s1, s2). if length s1 < length s2 then 1 else 0)") auto

declare levenshtein.simps [simp del]

text \<open>
  The reference for the two-row table: the textbook recursion on the last characters,
  written on reversed strings so that it recurses on \<open>#\<close>.
\<close>

fun ed :: "string \<Rightarrow> string \<Rightarrow> int" where
  "ed [] ys = int (length ys)"
| "ed (x # xs) [] = int (length (x # xs))"
| "ed (x # xs) (y # ys) =
     min (ed xs (y # ys) + 1) (min (ed (x # xs) ys + 1) (ed xs ys + (if x \<noteq> y then 1 else 0)))"

definition cell :: "string \<Rightarrow> string \<Rightarrow> int" where
  \<comment> \<open>the table entry for a prefix of \<open>s1\<close> and a prefix of \<open>s2\<close>\<close>
  "cell xs ys = ed (rev xs) (rev ys)"

definition table_row :: "string \<Rightarrow> string \<Rightarrow> int list" where
  \<comment> \<open>the table row of the prefix \<open>xs\<close> of \<open>s1\<close>, against every prefix of \<open>s2\<close>\<close>
  "table_row xs s2 = map (\<lambda>j. cell xs (take j s2)) [0 ..< length s2 + 1]"

section \<open>Prefix index (Trie.py, Search_Suggestions.py: TrieNode, Trie)\<close>

text \<open>
  A \<open>TrieNode\<close> holds the dictionary \<open>children\<close>, the flag \<open>is_end_of_word\<close> and the
  field \<open>word\<close> (\<open>None\<close> until a word ends at the node). The dictionary is an association
  list in insertion order, as a Python \<open>dict\<close> is; its keys are single characters. A
  \<open>Trie\<close> object only holds its root node and is identified with it.
\<close>

datatype trie_node =
  TrieNode (children: "(char \<times> trie_node) list") (is_end_of_word: bool) (word: "string option")

definition new_node :: trie_node where
  \<comment> \<open>\<open>TrieNode()\<close>, also the root of \<open>Trie()\<close>\<close>
  "new_node = TrieNode [] False None"

lemma size_child:
  "map_of kids ch = Some t \<Longrightarrow> size t < Suc (size_list (size_prod (\<lambda>_. 0) size) kids)"
  by (induction kids) (auto split: if_splits)

fun insert_from :: "string \<Rightarrow> string \<Rightarrow> trie_node \<Rightarrow> trie_node" where
  \<comment> \<open>the loop of \<open>insert\<close> over the remaining characters, then the two assignments;
      the second argument is the whole lowercased word\<close>
  "insert_from [] w (TrieNode kids e wd) = TrieNode kids True (Some w)"
| "insert_from (c # cs) w (TrieNode kids e wd) =
     (case map_of kids c of
        None \<Rightarrow> TrieNode (kids @ [(c, insert_from cs w new_node)]) e wd
      | Some t \<Rightarrow> TrieNode (AList.update c (insert_from cs w t) kids) e wd)"

definition insert_trie :: "string \<Rightarrow> trie_node \<Rightarrow> trie_node" where
  \<comment> \<open>\<open>Trie.insert\<close>\<close>
  "insert_trie w root = insert_from (lower w) (lower w) root"

fun insert_all :: "string list \<Rightarrow> trie_node \<Rightarrow> trie_node" where
  \<comment> \<open>\<open>Trie.insert_all\<close> of Search_Suggestions.py, with its test \<open>if w.strip()\<close>\<close>
  "insert_all [] root = root"
| "insert_all (w # ws) root = insert_all ws (if strip w \<noteq> [] then insert_trie w root else root)"

fun Trie_insert_all :: "string list \<Rightarrow> trie_node \<Rightarrow> trie_node" where
  \<comment> \<open>\<open>Trie.insert_all\<close> of Trie.py, which inserts every entry\<close>
  "Trie_insert_all [] root = root"
| "Trie_insert_all (w # ws) root = Trie_insert_all ws (insert_trie w root)"

fun walk :: "trie_node \<Rightarrow> string \<Rightarrow> trie_node option" where
  \<comment> \<open>the first loop of \<open>get_prefix_matches\<close>; \<open>None\<close> where the source returns \<open>[]\<close> early\<close>
  "walk n [] = Some n"
| "walk n (c # cs) = (case map_of (children n) c of None \<Rightarrow> None | Some t \<Rightarrow> walk t cs)"

function dfs :: "int \<Rightarrow> trie_node \<Rightarrow> string \<Rightarrow> string list \<Rightarrow> string list" where
  \<comment> \<open>the nested function \<open>dfs\<close>; the list \<open>result\<close> it appends to is passed and returned.
      The keys come from \<open>sorted(n.children)\<close>, so the lookup \<open>n.children[ch]\<close> finds a child.\<close>
  "dfs limit (TrieNode kids e wd) current result =
     (if limit \<le> int (length result) then result
      else foldl (\<lambda>r ch. case map_of kids ch of
                            Some t \<Rightarrow> dfs limit t (current @ [ch]) r
                          | None \<Rightarrow> r)
             (if e then result @ [current] else result)
             (sort (map fst kids)))"
  by pat_completeness auto
termination
  by (relation "measure (\<lambda>(limit, n, current, result). size n)") (auto dest: size_child)

definition get_prefix_matches :: "trie_node \<Rightarrow> string \<Rightarrow> int \<Rightarrow> string list" where
  "get_prefix_matches root prefix limit =
     (case walk root (lower prefix) of
        None \<Rightarrow> []
      | Some node \<Rightarrow> py_slice_to limit (dfs limit node (lower prefix) []))"

text \<open>The keys of a dictionary are distinct, at every node.\<close>

fun wf_trie :: "trie_node \<Rightarrow> bool" where
  "wf_trie (TrieNode kids e wd) = (distinct (map fst kids) \<and> (\<forall>p \<in> set kids. wf_trie (snd p)))"

text \<open>
  The traversal without the limit: the node's own path if it ends a word, then the
  subtrees in ascending order of their key.
\<close>

function words_below :: "trie_node \<Rightarrow> string \<Rightarrow> string list" where
  "words_below (TrieNode kids e wd) current =
     (if e then [current] else []) @
     concat (map (\<lambda>ch. case map_of kids ch of
                            Some t \<Rightarrow> words_below t (current @ [ch])
                          | None \<Rightarrow> [])
             (sort (map fst kids)))"
  by pat_completeness auto
termination
  by (relation "measure (\<lambda>(n, current). size n)") (auto dest: size_child)

text \<open>The field \<open>word\<close> of every node whose \<open>is_end_of_word\<close> is set.\<close>

fun stored_words :: "trie_node \<Rightarrow> string option list" where
  "stored_words (TrieNode kids e wd) =
     (if e then [wd] else []) @ concat (map (\<lambda>p. stored_words (snd p)) kids)"

section \<open>Corrector (Spell.py, Search_Suggestions.py: SpellSuggester)\<close>

text \<open>
  \<open>vocab\<close> is a Python \<open>set\<close>, \<open>len_buckets\<close> a \<open>defaultdict(list)\<close>, which has a key only
  once a word of that length was appended. The constructor fills the buckets in the
  order in which Python iterates the set, an order the language leaves open: it is the
  first argument of \<open>SpellSuggester\<close>, and \<open>iteration_of\<close> says that it is an iteration
  of the set (each element once).
\<close>

record spell_suggester =
  vocab :: "string set"
  max_dist :: int
  len_buckets :: "nat \<rightharpoonup> string list"

definition vocab_of :: "string list \<Rightarrow> string set" where
  \<comment> \<open>\<open>set(w.lower() for w in vocabulary if w.strip())\<close>\<close>
  "vocab_of vocabulary = set (map lower (filter (\<lambda>w. strip w \<noteq> []) vocabulary))"

definition iteration_of :: "string set \<Rightarrow> string list \<Rightarrow> bool" where
  "iteration_of S order \<longleftrightarrow> distinct order \<and> set order = S"

definition add_to_bucket :: "string \<Rightarrow> (nat \<rightharpoonup> string list) \<Rightarrow> (nat \<rightharpoonup> string list)" where
  \<comment> \<open>\<open>self.len_buckets[len(w)].append(w)\<close>\<close>
  "add_to_bucket w buckets =
     buckets(length w \<mapsto> (case buckets (length w) of None \<Rightarrow> [] | Some b \<Rightarrow> b) @ [w])"

definition SpellSuggester :: "string list \<Rightarrow> string list \<Rightarrow> int \<Rightarrow> spell_suggester" where
  "SpellSuggester order vocabulary md =
     \<lparr>vocab = vocab_of vocabulary, max_dist = md, len_buckets = fold add_to_bucket order Map.empty\<rparr>"

fun scan_bucket :: "int \<Rightarrow> string \<Rightarrow> string list \<Rightarrow> (int \<times> string) list \<Rightarrow> (int \<times> string) list option" where
  \<comment> \<open>the loop \<open>for term in self.len_buckets[length]\<close>, extending \<open>candidates\<close>\<close>
  "scan_bucket md w [] candidates = Some candidates"
| "scan_bucket md w (t # rest) candidates = do {
     skip \<leftarrow> (if t \<noteq> [] then do {
                 t0 \<leftarrow> py_index t 0;
                 w0 \<leftarrow> py_index w 0;
                 Some (t0 \<noteq> w0)
               } else Some False);
     if skip then scan_bucket md w rest candidates
     else do {
       d \<leftarrow> levenshtein w t;
       scan_bucket md w rest (if d \<le> md then candidates @ [(d, t)] else candidates)
     }
   }"

fun scan_lengths :: "spell_suggester \<Rightarrow> string \<Rightarrow> nat list \<Rightarrow> (int \<times> string) list \<Rightarrow> (int \<times> string) list option" where
  \<comment> \<open>the loop \<open>for length in range(...)\<close>\<close>
  "scan_lengths s w [] candidates = Some candidates"
| "scan_lengths s w (l # ls) candidates =
     (case len_buckets s l of
        None \<Rightarrow> scan_lengths s w ls candidates
      | Some bucket \<Rightarrow> do {
          candidates' \<leftarrow> scan_bucket (max_dist s) w bucket candidates;
          scan_lengths s w ls candidates'
        })"

definition suggest :: "spell_suggester \<Rightarrow> string \<Rightarrow> int \<Rightarrow> string list option" where
  \<comment> \<open>\<open>wlen\<close> is at least 1 where \<open>wlen - 1\<close> is computed, so the subtraction is exact on \<open>nat\<close>\<close>
  "suggest s word0 top_k =
     (let w = strip (lower word0) in
      if w = [] \<or> w \<in> vocab s then Some []
      else let wlen = length w in do {
        candidates \<leftarrow> scan_lengths s w [max 1 (wlen - 1) ..< wlen + 2] [];
        Some (py_slice_to top_k (map snd (sort_key (\<lambda>x. (fst x, snd x)) candidates)))
      })"

text \<open>The bucket of a length as a list (empty where the key is absent), and the test a
  term passes to become a candidate.\<close>

definition bucket_list :: "spell_suggester \<Rightarrow> nat \<Rightarrow> string list" where
  "bucket_list s l = (case len_buckets s l of None \<Rightarrow> [] | Some b \<Rightarrow> b)"

definition keeps :: "int \<Rightarrow> string \<Rightarrow> string \<Rightarrow> bool" where
  "keeps md w t \<longleftrightarrow> (t \<noteq> [] \<longrightarrow> hd t = hd w) \<and> cell w t \<le> md"

text \<open>
  The result of \<open>suggest\<close> in the words of the specification: the vocabulary terms of
  the three lengths with the query's first character and a distance within the
  threshold, ascending by (distance, term), cut to the first \<open>top_k\<close>.
\<close>

definition kept_terms :: "string set \<Rightarrow> int \<Rightarrow> string \<Rightarrow> string set" where
  "kept_terms V md w =
     {t \<in> V. max 1 (length w - 1) \<le> length t \<and> length t \<le> length w + 1 \<and> hd t = hd w
            \<and> (case levenshtein w t of Some d \<Rightarrow> d \<le> md | None \<Rightarrow> False)}"

definition suggest_spec :: "string set \<Rightarrow> int \<Rightarrow> string \<Rightarrow> int \<Rightarrow> string list" where
  "suggest_spec V md word0 top_k =
     (let w = strip (lower word0) in
      take (nat top_k)
        (map snd (sorted_list_of_set ((\<lambda>t. (the (levenshtein w t), t)) ` kept_terms V md w))))"

section \<open>Input router (Search_Suggestions.py: handle_input)\<close>

text \<open>
  \<open>handle_input\<close> prints its two lists; the model returns them. \<open>NoOutput\<close> is the early
  \<open>return\<close> on blank input.
\<close>

datatype printed = NoOutput | Suggestions (autocomplete: "string list") (did_you_mean: "string list")

definition handle_input :: "string \<Rightarrow> trie_node \<Rightarrow> spell_suggester \<Rightarrow> printed option" where
  "handle_input text0 trie suggester =
     (let text = strip text0 in
      if text = [] then Some NoOutput
      else
        let words = py_split text;
            last_word = (if words \<noteq> [] then last words else []);
            auto_suggestions = get_prefix_matches trie last_word 6
        in do {
          finished \<leftarrow> (if 3 \<le> length last_word then
                         (if text = [] then Some True
                          else do { c \<leftarrow> py_index text (- 1); Some (c \<noteq> CHR '' '') })
                       else Some False);
          spell_suggestions \<leftarrow> (if finished then suggest suggester last_word 3 else Some []);
          Some (Suggestions auto_suggestions spell_suggestions)
        })"

section \<open>Edit distance: the two rows compute the distance\<close>

lemma ed_nonneg: "0 \<le> ed xs ys"
  by (induction xs ys rule: ed.induct) auto

lemma ed_Nil2: "ed xs [] = int (length xs)"
  by (cases xs) auto

lemma ed_sym: "ed xs ys = ed ys xs"
  by (induction xs ys rule: ed.induct) (auto simp: ed_Nil2 min.commute min.left_commute)

lemma ed_refl: "ed xs xs = 0"
proof (induction xs)
  case Nil
  show ?case by simp
next
  case (Cons x xs)
  have "0 \<le> ed xs (x # xs)" "0 \<le> ed (x # xs) xs" by (rule ed_nonneg)+
  with Cons show ?case by simp
qed

lemma ed_length_diff: "\<bar>int (length xs) - int (length ys)\<bar> \<le> ed xs ys"
  by (induction xs ys rule: ed.induct) auto

lemma cell_snoc:
  "cell (xs @ [c]) (ys @ [d]) =
     min (cell xs (ys @ [d]) + 1) (min (cell (xs @ [c]) ys + 1) (cell xs ys + (if c \<noteq> d then 1 else 0)))"
  by (simp add: cell_def)

lemma py_index_nat: "j < length xs \<Longrightarrow> py_index xs (int j) = Some (xs ! j)"
  by (simp add: py_index_def)

lemma py_index_nat1: "Suc j < length xs \<Longrightarrow> py_index xs (int j + 1) = Some (xs ! Suc j)"
  using py_index_nat[of "Suc j" xs] by (simp add: add.commute)

lemma py_index_last: "xs \<noteq> [] \<Longrightarrow> py_index xs (- 1) = Some (last xs)"
  by (cases xs rule: rev_cases) (auto simp: py_index_def Let_def nth_append)

lemma lev_row_correct:
  "lev_row c (table_row xs (ys @ zs)) (enumerate (length ys) zs)
      (map (\<lambda>j. cell (xs @ [c]) (take j ys)) [0 ..< length ys + 1])
    = Some (table_row (xs @ [c]) (ys @ zs))"
proof (induction zs arbitrary: ys)
  case Nil
  show ?case by (simp add: table_row_def)
next
  case (Cons d zs)
  let ?prev = "table_row xs (ys @ d # zs)"
  let ?cur = "map (\<lambda>j. cell (xs @ [c]) (take j ys)) [0 ..< length ys + 1]"
  have p1: "py_index ?prev (int (length ys) + 1) = Some (cell xs (ys @ [d]))"
    by (subst py_index_nat1) (simp_all add: table_row_def nth_append del: upt_Suc)
  have p0: "py_index ?prev (int (length ys)) = Some (cell xs ys)"
    by (subst py_index_nat) (simp_all add: table_row_def nth_append del: upt_Suc)
  have cj: "py_index ?cur (int (length ys)) = Some (cell (xs @ [c]) ys)"
    by (subst py_index_nat) (simp_all add: nth_append del: upt_Suc)
  have ext: "?cur @ [cell (xs @ [c]) (ys @ [d])]
      = map (\<lambda>j. cell (xs @ [c]) (take j (ys @ [d]))) [0 ..< length (ys @ [d]) + 1]"
    by simp
  have "lev_row c ?prev (enumerate (length ys) (d # zs)) ?cur
      = lev_row c ?prev (enumerate (length (ys @ [d])) zs) (?cur @ [cell (xs @ [c]) (ys @ [d])])"
    by (simp only: enumerate_simps lev_row.simps p1 p0 cj bind.bind_lunit Let_def cell_snoc length_append_singleton)
  also have "\<dots> = Some (table_row (xs @ [c]) ((ys @ [d]) @ zs))"
    unfolding ext using Cons.IH[of "ys @ [d]"] by simp
  finally show ?case by simp
qed

lemma lev_rows_correct:
  "lev_rows (enumerate (length xs) zs) s2 (table_row xs s2) = Some (table_row (xs @ zs) s2)"
proof (induction zs arbitrary: xs)
  case Nil
  show ?case by simp
next
  case (Cons c zs)
  have "lev_row c (table_row xs ([] @ s2)) (enumerate (length ([]::string)) s2)
      (map (\<lambda>j. cell (xs @ [c]) (take j [])) [0 ..< length ([]::string) + 1])
    = Some (table_row (xs @ [c]) ([] @ s2))"
    by (rule lev_row_correct)
  then have row: "lev_row c (table_row xs s2) (enumerate 0 s2) [int (length xs) + 1]
    = Some (table_row (xs @ [c]) s2)"
    by (simp add: cell_def add.commute)
  show ?case using Cons.IH[of "xs @ [c]"] by (simp add: row)
qed

lemma table_row_Nil: "table_row [] s2 = map int [0 ..< length s2 + 1]"
  by (simp add: table_row_def cell_def del: upt_Suc)

lemma last_table_row: "last (table_row xs s2) = cell xs s2"
  by (simp add: table_row_def)

lemma levenshtein_ge:
  assumes "length s2 \<le> length s1"
  shows "levenshtein s1 s2 = Some (cell s1 s2)"
proof (cases "s2 = []")
  case True
  then show ?thesis by (simp add: levenshtein.simps cell_def ed_Nil2)
next
  case False
  have "lev_rows (enumerate (length ([]::string)) s1) s2 (table_row [] s2) = Some (table_row ([] @ s1) s2)"
    by (rule lev_rows_correct)
  then have rows: "lev_rows (enumerate 0 s1) s2 (map int [0 ..< length s2 + 1]) = Some (table_row s1 s2)"
    by (simp add: table_row_Nil del: upt_Suc)
  have ne: "table_row s1 s2 \<noteq> []" by (simp add: table_row_def)
  from assms False have "levenshtein s1 s2 =
      lev_rows (enumerate 0 s1) s2 (map int [0 ..< length s2 + 1]) \<bind> (\<lambda>previous. py_index previous (- 1))"
    by (subst levenshtein.simps) (simp del: upt_Suc)
  also have "\<dots> = Some (cell s1 s2)"
    unfolding rows by (simp add: py_index_last[OF ne] last_table_row)
  finally show ?thesis .
qed

lemma cell_sym: "cell xs ys = cell ys xs"
  by (simp add: cell_def ed_sym)

lemma levenshtein_cell: "levenshtein s1 s2 = Some (cell s1 s2)"
proof (cases "length s1 < length s2")
  case True
  then have "levenshtein s1 s2 = levenshtein s2 s1" by (subst levenshtein.simps) simp
  also have "\<dots> = Some (cell s2 s1)" using True by (simp add: levenshtein_ge)
  finally show ?thesis by (simp add: cell_sym)
next
  case False
  then show ?thesis by (simp add: levenshtein_ge)
qed


text \<open>
  C6: for all strings \<open>a\<close> and \<open>b\<close>, \<open>levenshtein\<close> returns the same number for \<open>(a, b)\<close>
  and \<open>(b, a)\<close>, returns 0 for \<open>(a, a)\<close>, and returns the length of \<open>a\<close> for \<open>(a, "")\<close>.
\<close>

theorem levenshtein_symmetric_identity_empty:
  "levenshtein a b = levenshtein b a
   \<and> levenshtein a a = Some 0
   \<and> levenshtein a [] = Some (int (length a))"
  by (simp add: levenshtein_cell cell_sym) (simp add: cell_def ed_refl ed_Nil2)

text \<open>
  C9: for all strings \<open>a\<close> and \<open>b\<close>, \<open>levenshtein\<close> returns a number, and the absolute
  difference of the two lengths is at most that number.
\<close>

theorem levenshtein_length_difference:
  "\<exists>d. levenshtein a b = Some d \<and> \<bar>int (length a) - int (length b)\<bar> \<le> d"
  using ed_length_diff[of "rev a" "rev b"] by (simp add: levenshtein_cell cell_def)

section \<open>Prefix index: the traversal, its order and its bound\<close>

subsection \<open>dfs against the unlimited traversal\<close>

lemma foldl_limited:
  assumes "\<And>ch r. ch \<in> set ks \<Longrightarrow> F r ch = r @ take (nat (limit - int (length r))) (W ch)"
  shows "foldl F r0 ks = r0 @ take (nat (limit - int (length r0))) (concat (map W ks))"
  using assms
proof (induction ks arbitrary: r0)
  case Nil
  show ?case by simp
next
  case (Cons k ks)
  let ?a = "nat (limit - int (length r0))"
  have step: "F r0 k = r0 @ take ?a (W k)" using Cons.prems by simp
  have "foldl F r0 (k # ks) = foldl F (F r0 k) ks" by simp
  also have "\<dots> = F r0 k @ take (nat (limit - int (length (F r0 k)))) (concat (map W ks))"
    using Cons.prems by (intro Cons.IH) simp
  also have "nat (limit - int (length (F r0 k))) = ?a - length (W k)"
    unfolding step by (simp add: min_def) linarith
  finally show ?case by (simp add: step)
qed

lemma dfs_words_below:
  "dfs limit n current result
     = result @ take (nat (limit - int (length result))) (words_below n current)"
proof (induction limit n current result rule: dfs.induct)
  case (1 limit kids e wd current result)
  show ?case
  proof (cases "limit \<le> int (length result)")
    case True
    then show ?thesis by simp
  next
    case False
    let ?W = "\<lambda>ch. case map_of kids ch of Some t \<Rightarrow> words_below t (current @ [ch]) | None \<Rightarrow> []"
    let ?F = "\<lambda>r ch. case map_of kids ch of Some t \<Rightarrow> dfs limit t (current @ [ch]) r | None \<Rightarrow> r"
    let ?r0 = "if e then result @ [current] else result"
    have "foldl ?F ?r0 (sort (map fst kids))
        = ?r0 @ take (nat (limit - int (length ?r0))) (concat (map ?W (sort (map fst kids))))"
    proof (rule foldl_limited)
      fix ch r
      assume "ch \<in> set (sort (map fst kids))"
      then show "?F r ch = r @ take (nat (limit - int (length r))) (?W ch)"
        using "1.IH"[OF False] by (cases "map_of kids ch") simp_all
    qed
    moreover have "nat (limit - int (length result)) = Suc (nat (limit - (1 + int (length result))))"
      using False by linarith
    ultimately show ?thesis using False by simp
  qed
qed

subsection \<open>Order of the traversal\<close>

lemma less_extend: "current < current @ c # s" for current :: "'a::linorder list"
  unfolding list_less_def by (rule lexord_append_rightI) blast

lemma less_branch: "c < d \<Longrightarrow> current @ c # s < current @ d # s'" for current :: "'a::linorder list"
  unfolding list_less_def by (rule lexord_append_left_rightI) simp

lemma sorted_branches:
  fixes current :: string
  assumes "sorted_wrt (<) ks"
    and "\<And>k. k \<in> set ks \<Longrightarrow> sorted_wrt (<) (W k)"
    and "\<And>k w. k \<in> set ks \<Longrightarrow> w \<in> set (W k) \<Longrightarrow> \<exists>s. w = current @ k # s"
  shows "sorted_wrt (<) (concat (map W ks))"
  using assms
proof (induction ks)
  case Nil
  show ?case by simp
next
  case (Cons k ks)
  have "x < y" if "x \<in> set (W k)" "k' \<in> set ks" "y \<in> set (W k')" for x y k'
  proof -
    have "\<exists>s. x = current @ k # s" using that(1) by (intro Cons.prems(3)) simp_all
    then obtain s where x: "x = current @ k # s" ..
    have "\<exists>s. y = current @ k' # s" using that(2,3) by (intro Cons.prems(3)) simp_all
    then obtain s' where y: "y = current @ k' # s'" ..
    have "k < k'" using Cons.prems(1) that(2) by simp
    then show ?thesis unfolding x y by (rule less_branch)
  qed
  moreover have "sorted_wrt (<) (concat (map W ks))"
    using Cons.prems by (intro Cons.IH) auto
  ultimately show ?case using Cons.prems(2) by (auto simp: sorted_wrt_append)
qed

lemma words_below_extend:
  "w \<in> set (words_below n current) \<Longrightarrow> \<exists>s. w = current @ s"
proof (induction n current arbitrary: w rule: words_below.induct)
  case (1 kids e wd current)
  from "1.prems" have "w = current \<or> (\<exists>ch t. ch \<in> set (sort (map fst kids)) \<and> map_of kids ch = Some t
        \<and> w \<in> set (words_below t (current @ [ch])))"
    by (auto split: if_splits option.splits) force
  then consider "w = current"
    | ch t where "ch \<in> set (sort (map fst kids))" "map_of kids ch = Some t"
        "w \<in> set (words_below t (current @ [ch]))"
    by blast
  then show ?case
  proof cases
    case 1
    then show ?thesis by simp
  next
    case 2
    from "1.IH"[OF 2] obtain s where "w = (current @ [ch]) @ s" by blast
    then show ?thesis by simp
  qed
qed

lemma words_below_sorted:
  "wf_trie n \<Longrightarrow> sorted_wrt (<) (words_below n current)"
proof (induction n current rule: words_below.induct)
  case (1 kids e wd current)
  let ?W = "\<lambda>ch. case map_of kids ch of Some t \<Rightarrow> words_below t (current @ [ch]) | None \<Rightarrow> []"
  have keys: "sorted_wrt (<) (sort (map fst kids))"
    using "1.prems" by (simp add: strict_sorted_iff)
  have below: "\<exists>s. w = current @ k # s" if "w \<in> set (?W k)" for k w
  proof (cases "map_of kids k")
    case None
    with that show ?thesis by simp
  next
    case (Some t)
    with that words_below_extend[of w t "current @ [k]"] show ?thesis by auto
  qed
  have each: "sorted_wrt (<) (?W k)" if "k \<in> set (sort (map fst kids))" for k
  proof (cases "map_of kids k")
    case None
    then show ?thesis by simp
  next
    case (Some t)
    then have "(k, t) \<in> set kids" by (rule map_of_SomeD)
    then have "wf_trie t" using "1.prems" by auto
    then show ?thesis using "1.IH"[OF that Some] Some by simp
  qed
  have rest: "sorted_wrt (<) (concat (map ?W (sort (map fst kids))))"
    using keys each below by (rule sorted_branches)
  have "current < w" if "w \<in> set (concat (map ?W (sort (map fst kids))))" for w
  proof -
    from that obtain k where "w \<in> set (?W k)" by auto
    then obtain s where "w = current @ k # s" using below by blast
    then show ?thesis by (simp add: less_extend)
  qed
  with rest show ?case by (auto simp: sorted_wrt_append)
qed

subsection \<open>The invariant of the children dictionaries\<close>

lemma set_update_cases: "p \<in> set (AList.update k v al) \<Longrightarrow> p = (k, v) \<or> p \<in> set al"
  by (induction al) (auto split: if_splits)

lemma wf_new_node: "wf_trie new_node"
  by (simp add: new_node_def)

lemma wf_insert_from: "wf_trie n \<Longrightarrow> wf_trie (insert_from cs w n)"
proof (induction cs w n rule: insert_from.induct)
  case (1 w kids e wd)
  then show ?case by simp
next
  case (2 c cs w kids e wd)
  show ?case
  proof (cases "map_of kids c")
    case None
    then have "c \<notin> fst ` set kids" by (simp add: map_of_eq_None_iff)
    moreover have "wf_trie (insert_from cs w new_node)"
      using "2.IH"(1)[OF None] by (simp add: wf_new_node)
    ultimately show ?thesis using "2.prems" None by auto
  next
    case (Some t)
    then have "(c, t) \<in> set kids" by (rule map_of_SomeD)
    then have "wf_trie t" using "2.prems" by auto
    then have "wf_trie (insert_from cs w t)" by (rule "2.IH"(2)[OF Some])
    then show ?thesis using "2.prems" Some
      by (auto simp: distinct_update dest!: set_update_cases)
  qed
qed

lemma wf_insert: "wf_trie root \<Longrightarrow> wf_trie (insert_trie w root)"
  by (simp add: insert_trie_def wf_insert_from)

lemma wf_fold_insert: "wf_trie root \<Longrightarrow> wf_trie (fold insert_trie ws root)"
  by (induction ws arbitrary: root) (simp_all add: wf_insert)

lemma wf_walk: "wf_trie n \<Longrightarrow> walk n cs = Some m \<Longrightarrow> wf_trie m"
proof (induction cs arbitrary: n)
  case Nil
  then show ?case by simp
next
  case (Cons c cs)
  then obtain t where t: "map_of (children n) c = Some t" "walk t cs = Some m"
    by (auto split: option.splits)
  then have "(c, t) \<in> set (children n)" by (auto dest: map_of_SomeD)
  then have "wf_trie t" using Cons.prems(1) by (cases n) auto
  then show ?case using t Cons.IH by blast
qed

lemma insert_all_filter: "insert_all ws root = fold insert_trie (filter (\<lambda>w. strip w \<noteq> []) ws) root"
  by (induction ws arbitrary: root) simp_all

lemma Trie_insert_all_fold: "Trie_insert_all ws root = fold insert_trie ws root"
  by (induction ws arbitrary: root) simp_all

lemma py_slice_to_nonneg: "0 \<le> k \<Longrightarrow> py_slice_to k xs = take (nat k) xs"
  by (simp add: py_slice_to_def)

subsection \<open>Prefix matches\<close>

lemma get_prefix_matches_words_below:
  assumes "walk root (lower prefix) = Some node"
  shows "get_prefix_matches root prefix limit = take (nat limit) (words_below node (lower prefix))"
proof (cases "0 \<le> limit")
  case True
  then show ?thesis
    using assms by (simp add: get_prefix_matches_def dfs_words_below py_slice_to_nonneg)
next
  case False
  then show ?thesis
    using assms by (simp add: get_prefix_matches_def dfs_words_below py_slice_to_def)
qed

lemma mac_example:
  "get_prefix_matches (fold insert_trie [''machine'', ''macbook'', ''macarena''] new_node) ''mac'' 5
     = [''macarena'', ''macbook'', ''machine'']"
  by code_simp

text \<open>
  C3: for every trie (a tree of dictionaries, whose keys are distinct) and every prefix
  whose path exists in the trie, \<open>get_prefix_matches\<close> returns the words collected by the traversal (the first \<open>limit\<close>
  of them), and they are in strictly ascending lexicographic order; after inserting
  "machine", "macbook", "macarena", the call with prefix "mac" and limit 5 returns
  exactly "macarena", "macbook", "machine".
\<close>

theorem get_prefix_matches_ascending:
  assumes "wf_trie root" and "walk root (lower prefix) = Some node"
  shows "get_prefix_matches root prefix limit = take (nat limit) (words_below node (lower prefix))
    \<and> sorted_wrt (<) (words_below node (lower prefix))
    \<and> sorted_wrt (<) (get_prefix_matches root prefix limit)
    \<and> get_prefix_matches (fold insert_trie [''machine'', ''macbook'', ''macarena''] new_node) ''mac'' 5
        = [''macarena'', ''macbook'', ''machine'']"
proof -
  have "wf_trie node" using assms by (rule wf_walk)
  then have "sorted_wrt (<) (words_below node (lower prefix))" by (rule words_below_sorted)
  moreover have "get_prefix_matches root prefix limit
      = take (nat limit) (words_below node (lower prefix))"
    using assms(2) by (rule get_prefix_matches_words_below)
  ultimately show ?thesis
    using mac_example by (simp only: sorted_wrt_take simp_thms)
qed

lemma mac_trie_wf: "wf_trie (fold insert_trie [''machine'', ''macbook'', ''macarena''] new_node)"
  by (rule wf_fold_insert) (rule wf_new_node)

lemma mac_trie_walk:
  "walk (fold insert_trie [''machine'', ''macbook'', ''macarena''] new_node) (lower ''MA'') \<noteq> None"
  by code_simp

theorem get_prefix_matches_ascending_witness:
  "wf_trie (fold insert_trie [''machine'', ''macbook'', ''macarena''] new_node)
   \<and> walk (fold insert_trie [''machine'', ''macbook'', ''macarena''] new_node) (lower ''MA'') \<noteq> None
   \<and> sorted_wrt (<) (get_prefix_matches (fold insert_trie [''machine'', ''macbook'', ''macarena''] new_node) ''MA'' 2)"
proof -
  let ?root = "fold insert_trie [''machine'', ''macbook'', ''macarena''] new_node"
  have h: "walk ?root (lower ''MA'') = Some (the (walk ?root (lower ''MA'')))"
    using mac_trie_walk by simp
  show ?thesis
    using get_prefix_matches_ascending[OF mac_trie_wf h, of 2] mac_trie_wf mac_trie_walk by simp
qed

text \<open>
  C8: for every trie, every prefix and every integer \<open>limit \<ge> 0\<close>, the list returned by
  \<open>get_prefix_matches\<close> has at most \<open>limit\<close> elements.
\<close>

theorem get_prefix_matches_at_most_limit:
  "0 \<le> limit \<Longrightarrow> int (length (get_prefix_matches root prefix limit)) \<le> limit"
  by (cases "walk root (lower prefix)") (simp_all add: get_prefix_matches_def py_slice_to_nonneg)

theorem get_prefix_matches_at_most_limit_witness:
  "(0::int) \<le> 2
   \<and> int (length (get_prefix_matches (fold insert_trie [''machine'', ''macbook'', ''macarena''] new_node) ''mac'' 2)) \<le> 2
   \<and> get_prefix_matches (fold insert_trie [''machine'', ''macbook'', ''macarena''] new_node) ''mac'' 0 = []"
  using get_prefix_matches_at_most_limit[of 2 "fold insert_trie [''machine'', ''macbook'', ''macarena''] new_node" "''mac''"]
    get_prefix_matches_at_most_limit[of 0 "fold insert_trie [''machine'', ''macbook'', ''macarena''] new_node" "''mac''"]
  by simp

text \<open>
  C5: \<open>insert_all\<close> is to skip the entries that are empty after trimming. The
  \<open>insert_all\<close> of Search_Suggestions.py does (lemma \<open>insert_all_filter\<close>): on the
  two blank entries below it leaves the trie as it was. The \<open>insert_all\<close> of Trie.py
  inserts them: the root becomes a terminal node for the empty word, with a child for
  the space.
\<close>

theorem Trie_insert_all_blank:
  "Trie_insert_all ['''', '' ''] new_node
     = TrieNode [(CHR '' '', TrieNode [] True (Some '' ''))] True (Some '''')
   \<and> insert_all ['''', '' ''] new_node = new_node"
  by code_simp

subsection \<open>Stored words\<close>

lemma lower_char_not_upper: "\<not> is_upper (lower_char c)"
  by (auto simp: lower_char_def is_upper_def)

lemma is_lowercase_lower: "is_lowercase (lower w)"
  by (simp add: is_lowercase_def lower_def lower_char_not_upper)

lemma stored_insert_from:
  "set (stored_words (insert_from cs w n)) \<subseteq> Set.insert (Some w) (set (stored_words n))"
proof (induction cs w n rule: insert_from.induct)
  case (1 w kids e wd)
  show ?case by auto
next
  case (2 c cs w kids e wd)
  show ?case
  proof (cases "map_of kids c")
    case None
    with "2.IH"(1)[OF None] show ?thesis by (auto simp: new_node_def)
  next
    case (Some t)
    then have "(c, t) \<in> set kids" by (rule map_of_SomeD)
    with "2.IH"(2)[OF Some] Some show ?thesis
      by (auto dest!: set_update_cases) force+
  qed
qed

lemma stored_insert:
  "set (stored_words (insert_trie w root)) \<subseteq> Set.insert (Some (lower w)) (set (stored_words root))"
  by (simp add: insert_trie_def stored_insert_from)

lemma stored_fold_insert:
  "set (stored_words (fold insert_trie ws root)) \<subseteq> Some ` lower ` set ws \<union> set (stored_words root)"
proof (induction ws arbitrary: root)
  case Nil
  show ?case by simp
next
  case (Cons w ws)
  show ?case using Cons.IH[of "insert_trie w root"] stored_insert[of w root] by auto
qed

lemma strip_nonempty: "strip w \<noteq> [] \<Longrightarrow> w \<noteq> []"
  by (auto simp: strip_def)

lemma stored_words_insert_all:
  assumes "x \<in> set (stored_words (insert_all ws new_node))"
  shows "\<exists>s. x = Some s \<and> is_lowercase s \<and> s \<noteq> []"
proof -
  have "x \<in> Some ` lower ` set (filter (\<lambda>w. strip w \<noteq> []) ws)"
    using assms stored_fold_insert[of "filter (\<lambda>w. strip w \<noteq> []) ws" new_node]
    by (auto simp: insert_all_filter new_node_def)
  then obtain w where w: "strip w \<noteq> []" "x = Some (lower w)" by auto
  then have "lower w \<noteq> []" by (auto simp: lower_def dest: strip_nonempty)
  with w show ?thesis by (auto simp: is_lowercase_lower)
qed

text \<open>
  C4, as amended: after any sequence of \<open>insert\<close> operations on a new trie, every word
  stored at a terminal node is the lowercased form of an inserted word and is lowercase,
  and it is non-empty unless the empty string was one of the inserted words.
\<close>

theorem stored_words_lowercase:
  assumes "x \<in> set (stored_words (fold insert_trie ws new_node))"
  shows "\<exists>s. x = Some s \<and> s \<in> lower ` set ws \<and> is_lowercase s \<and> (s = [] \<longrightarrow> [] \<in> set ws)"
proof -
  have "x \<in> Some ` lower ` set ws"
    using assms stored_fold_insert[of ws new_node] by (auto simp: new_node_def)
  then obtain w where w: "w \<in> set ws" "x = Some (lower w)" by blast
  have "lower w = [] \<longrightarrow> w = []" by (simp add: lower_def)
  with w show ?thesis by (auto simp: is_lowercase_lower)
qed

theorem stored_words_lowercase_witness:
  "Some ''abc'' \<in> set (stored_words (fold insert_trie [''ABc'', ''x''] new_node))
   \<and> is_lowercase ''abc''"
proof -
  have h: "Some ''abc'' \<in> set (stored_words (fold insert_trie [''ABc'', ''x''] new_node))"
    by code_simp
  show ?thesis using stored_words_lowercase[OF h] h by simp
qed

text \<open>
  C4 as stated fails: \<open>insert\<close> has no guard of its own, and inserting the empty string
  marks the root as terminal, storing the empty word there.
\<close>

theorem empty_word_stored:
  "is_end_of_word (insert_trie '''' new_node) \<and> word (insert_trie '''' new_node) = Some ''''"
  by (simp add: insert_trie_def lower_def new_node_def)

section \<open>Corrector: what suggest returns\<close>

subsection \<open>Buckets\<close>

lemma fold_add_to_bucket:
  "fold add_to_bucket order b l =
     (case b l of
        None \<Rightarrow> (if filter (\<lambda>t. length t = l) order = [] then None
                  else Some (filter (\<lambda>t. length t = l) order))
      | Some old \<Rightarrow> Some (old @ filter (\<lambda>t. length t = l) order))"
proof (induction order arbitrary: b)
  case Nil
  show ?case by (simp split: option.splits)
next
  case (Cons w order)
  show ?case
    by (simp add: Cons.IH) (simp add: add_to_bucket_def split: option.splits)
qed

lemma bucket_list_SpellSuggester:
  "bucket_list (SpellSuggester order vocabulary md) l = filter (\<lambda>t. length t = l) order"
  by (simp add: bucket_list_def SpellSuggester_def fold_add_to_bucket)

subsection \<open>The two loops of suggest\<close>

lemma py_index_0: "xs \<noteq> [] \<Longrightarrow> py_index xs 0 = Some (hd xs)"
  by (cases xs) (simp_all add: py_index_def)

lemma scan_bucket_eq:
  assumes "w \<noteq> []"
  shows "scan_bucket md w bucket candidates
     = Some (candidates @ map (\<lambda>t. (cell w t, t)) (filter (keeps md w) bucket))"
proof (induction bucket arbitrary: candidates)
  case Nil
  show ?case by simp
next
  case (Cons t bucket)
  show ?case
    using assms by (simp add: Cons.IH py_index_0 levenshtein_cell keeps_def)
qed

lemma scan_lengths_eq:
  assumes "w \<noteq> []"
  shows "scan_lengths s w ls candidates
     = Some (candidates @
         concat (map (\<lambda>l. map (\<lambda>t. (cell w t, t)) (filter (keeps (max_dist s) w) (bucket_list s l))) ls))"
proof (induction ls arbitrary: candidates)
  case Nil
  show ?case by simp
next
  case (Cons l ls)
  show ?case
    by (cases "len_buckets s l") (simp_all add: Cons.IH bucket_list_def scan_bucket_eq[OF assms])
qed

lemma concat_buckets_set:
  "set (concat (map (\<lambda>l. map f (filter P (filter (\<lambda>t. length t = l) order))) ls))
     = f ` {t \<in> set order. length t \<in> set ls \<and> P t}"
  by auto

lemma sort_pairs: "sort_key (\<lambda>x. (fst x, snd x)) cs = sort cs"
  by simp

lemma sort_distinct: "distinct xs \<Longrightarrow> sort xs = sorted_list_of_set (set xs)"
  by (simp add: sorted_list_of_set_sort_remdups distinct_remdups_id)

lemma concat_buckets_distinct:
  assumes "distinct order" "distinct ls" "inj f"
  shows "distinct (concat (map (\<lambda>l. map f (filter P (filter (\<lambda>t. length t = l) order))) ls))"
  using assms(2)
proof (induction ls)
  case Nil
  show ?case by simp
next
  case (Cons l ls)
  let ?b = "map f (filter P (filter (\<lambda>t. length t = l) order))"
  let ?rest = "concat (map (\<lambda>l. map f (filter P (filter (\<lambda>t. length t = l) order))) ls)"
  have "inj_on f (set (filter P (filter (\<lambda>t. length t = l) order)))"
    using assms(3) by (rule inj_on_subset) simp
  then have b: "distinct ?b"
    using assms(1) by (simp add: distinct_map)
  have rest: "distinct ?rest" using Cons by simp
  have "x \<notin> set ?rest" if "x \<in> set ?b" for x
  proof
    assume "x \<in> set ?rest"
    then obtain t' where t': "x = f t'" "length t' \<in> set ls"
      unfolding concat_buckets_set by blast
    from that obtain t where t: "x = f t" "length t = l" by auto
    from t(1) t'(1) assms(3) have "t = t'" by (auto dest: injD)
    with t(2) t'(2) Cons.prems show False by simp
  qed
  then have "set ?b \<inter> set ?rest = {}" by blast
  with b rest have "distinct (?b @ ?rest)" by (simp only: distinct_append simp_thms)
  then show ?case by simp
qed

lemma kept_terms_eq:
  "w \<noteq> [] \<Longrightarrow> kept_terms V md w
     = {t \<in> V. length t \<in> set [max 1 (length w - 1) ..< length w + 2] \<and> keeps md w t}"
  by (auto simp: kept_terms_def keeps_def levenshtein_cell)

lemma suggest_constructed:
  assumes it: "iteration_of (vocab_of vocabulary) order"
    and w: "w = strip (lower word0)" "w \<noteq> []" "w \<notin> vocab_of vocabulary"
  shows "suggest (SpellSuggester order vocabulary md) word0 k
    = Some (py_slice_to k (map snd (sorted_list_of_set
        ((\<lambda>t. (the (levenshtein w t), t)) ` kept_terms (vocab_of vocabulary) md w))))"
proof -
  let ?s = "SpellSuggester order vocabulary md"
  let ?ls = "[max 1 (length w - 1) ..< length w + 2]"
  let ?f = "\<lambda>t. (cell w t, t)"
  let ?cs = "concat (map (\<lambda>l. map ?f (filter (keeps md w) (filter (\<lambda>t. length t = l) order))) ?ls)"
  have md: "max_dist ?s = md" and V: "vocab ?s = vocab_of vocabulary"
    by (simp_all add: SpellSuggester_def)
  have scan: "scan_lengths ?s w ?ls [] = Some ?cs"
    by (simp add: scan_lengths_eq[OF w(2)] md bucket_list_SpellSuggester)
  have "inj ?f" by (simp add: inj_on_def)
  then have "distinct ?cs" using it by (intro concat_buckets_distinct) (simp_all add: iteration_of_def)
  then have "sort ?cs = sorted_list_of_set (set ?cs)" by (rule sort_distinct)
  also have "set ?cs = ?f ` kept_terms (vocab_of vocabulary) md w"
    using it unfolding concat_buckets_set kept_terms_eq[OF w(2)] by (simp add: iteration_of_def)
  finally have sorted: "sort ?cs
      = sorted_list_of_set ((\<lambda>t. (the (levenshtein w t), t)) ` kept_terms (vocab_of vocabulary) md w)"
    by (simp add: levenshtein_cell)
  have "suggest ?s word0 k
      = scan_lengths ?s w ?ls [] \<bind>
          (\<lambda>candidates. Some (py_slice_to k (map snd (sort_key (\<lambda>x. (fst x, snd x)) candidates))))"
    unfolding suggest_def Let_def V w(1)[symmetric] using w(2,3) by (simp only: if_False simp_thms)
  also have "\<dots> = Some (py_slice_to k (map snd (sort ?cs)))"
    unfolding scan by (simp only: bind.bind_lunit sort_pairs)
  finally show ?thesis unfolding sorted .
qed

subsection \<open>Blank strings\<close>

lemma strip_empty_iff: "strip s = [] \<longleftrightarrow> (\<forall>c \<in> set s. is_space c)"
proof (cases "dropWhile is_space s")
  case Nil
  then have "strip s = []" unfolding strip_def by (simp only: rev.simps dropWhile.simps)
  moreover have "\<forall>c \<in> set s. is_space c"
    using Nil by (simp add: dropWhile_eq_Nil_conv)
  ultimately show ?thesis by simp
next
  case (Cons c cs)
  then have c: "\<not> is_space c" using hd_dropWhile[of is_space s] by simp
  have "c \<in> set s" using Cons set_dropWhileD[of c is_space s] by simp
  moreover have "strip s \<noteq> []"
    using Cons c by (auto simp: strip_def dropWhile_eq_Nil_conv)
  ultimately show ?thesis using c by blast
qed

lemma is_space_lower_char: "is_space (lower_char c) \<longleftrightarrow> is_space c"
  by (auto simp: lower_char_def is_space_def is_upper_def)

lemma strip_lower_empty: "strip (lower w) = [] \<longleftrightarrow> strip w = []"
  by (simp add: strip_empty_iff lower_def is_space_lower_char)

lemma vocab_of_alt: "vocab_of vocabulary = {u \<in> set (map lower vocabulary). strip u \<noteq> []}"
  by (auto simp: vocab_of_def strip_lower_empty)

lemma strip_last_not_space: "strip s \<noteq> [] \<Longrightarrow> \<not> is_space (last (strip s))"
proof -
  assume "strip s \<noteq> []"
  then have ne: "dropWhile is_space (rev (dropWhile is_space s)) \<noteq> []"
    by (simp add: strip_def)
  then have "\<not> is_space (hd (dropWhile is_space (rev (dropWhile is_space s))))"
    by (rule hd_dropWhile)
  with ne show ?thesis by (simp add: strip_def last_rev)
qed

subsection \<open>suggest returns\<close>

lemma suggest_returns: "\<exists>ys. suggest s word0 k = Some ys"
  by (simp add: suggest_def Let_def scan_lengths_eq del: upt_Suc)

lemma suggest_early: "strip (lower word0) = [] \<or> strip (lower word0) \<in> vocab s \<Longrightarrow> suggest s word0 k = Some []"
  by (auto simp: suggest_def Let_def)

text \<open>
  C7: \<open>suggest\<close> never raises: for every corrector (any vocabulary set, threshold and
  buckets, so also one built from an empty vocabulary) and every query it returns a
  list, and it returns the empty list whenever the lowercased, trimmed query is empty
  or is a member of the vocabulary set.
\<close>

theorem suggest_never_fails:
  "(\<exists>ys. suggest s word0 top_k = Some ys)
   \<and> (strip (lower word0) = [] \<or> strip (lower word0) \<in> vocab s \<longrightarrow> suggest s word0 top_k = Some [])"
  using suggest_returns suggest_early by blast

theorem suggest_never_fails_witness:
  "strip (lower '' '') = []
   \<and> suggest (SpellSuggester [] [] 2) '' '' 3 = Some []
   \<and> strip (lower ''Machine '') \<in> vocab (SpellSuggester [''machine''] [''machine''] 2)
   \<and> suggest (SpellSuggester [''machine''] [''machine''] 2) ''Machine '' 3 = Some []"
proof -
  have a: "strip (lower '' '') = []" by code_simp
  have b: "strip (lower ''Machine '') \<in> vocab (SpellSuggester [''machine''] [''machine''] 2)"
    by code_simp
  show ?thesis
    using suggest_never_fails[of "SpellSuggester [] [] 2" "'' ''" 3]
      suggest_never_fails[of "SpellSuggester [''machine''] [''machine''] 2" "''Machine ''" 3] a b
    by simp
qed

text \<open>
  C2, as amended: for every constructed corrector, every query whose lowercased, trimmed
  form is non-empty and not in the vocabulary set, and every \<open>top_k \<ge> 0\<close>, \<open>suggest\<close>
  returns the first \<open>top_k\<close> of the vocabulary terms of the three lengths that share
  the query's first character and lie within the threshold, ascending by
  (distance, term); for a query whose lowercased, trimmed form is empty or in the
  vocabulary set it returns the empty list.
\<close>

theorem suggest_meets_spec:
  assumes "iteration_of (vocab_of vocabulary) order" and "0 \<le> top_k"
  shows "suggest (SpellSuggester order vocabulary md) word0 top_k
     = (if strip (lower word0) = [] \<or> strip (lower word0) \<in> vocab_of vocabulary then Some []
        else Some (suggest_spec (vocab_of vocabulary) md word0 top_k))"
proof (cases "strip (lower word0) = [] \<or> strip (lower word0) \<in> vocab_of vocabulary")
  case True
  then have "strip (lower word0) = [] \<or> strip (lower word0) \<in> vocab (SpellSuggester order vocabulary md)"
    by (simp add: SpellSuggester_def)
  then have "suggest (SpellSuggester order vocabulary md) word0 top_k = Some []"
    by (rule suggest_early)
  with True show ?thesis by simp
next
  case False
  then have w: "strip (lower word0) \<noteq> []" "strip (lower word0) \<notin> vocab_of vocabulary"
    by simp_all
  show ?thesis
    using assms(2) False suggest_constructed[OF assms(1) refl w]
    by (simp add: suggest_spec_def Let_def py_slice_to_nonneg)
qed

lemma example_iteration:
  "iteration_of (vocab_of [''Machine'', ''marine'', '' '', ''medicine'', ''machine''])
     [''medicine'', ''machine'', ''marine'']"
  by code_simp

theorem suggest_meets_spec_witness:
  "iteration_of (vocab_of [''Machine'', ''marine'', '' '', ''medicine'', ''machine''])
     [''medicine'', ''machine'', ''marine'']
   \<and> (0::int) \<le> 3
   \<and> suggest (SpellSuggester [''medicine'', ''machine'', ''marine'']
        [''Machine'', ''marine'', '' '', ''medicine'', ''machine''] 2) '' Mahcine'' 3
      = Some [''machine'', ''marine'']
   \<and> suggest (SpellSuggester [''medicine'', ''machine'', ''marine'']
        [''Machine'', ''marine'', '' '', ''medicine'', ''machine''] 2) ''MARINE'' 3
      = Some []"
proof -
  have a: "strip (lower '' Mahcine'') \<noteq> []
     \<and> strip (lower '' Mahcine'') \<notin> vocab_of [''Machine'', ''marine'', '' '', ''medicine'', ''machine'']"
    by code_simp
  have b: "strip (lower ''MARINE'') \<in> vocab_of [''Machine'', ''marine'', '' '', ''medicine'', ''machine'']"
    by code_simp
  have c: "(0::int) \<le> 3" by simp
  have d: "suggest_spec (vocab_of [''Machine'', ''marine'', '' '', ''medicine'', ''machine'']) 2 '' Mahcine'' 3
      = [''machine'', ''marine'']"
    by code_simp
  show ?thesis
    using suggest_meets_spec[OF example_iteration c, of 2 "'' Mahcine''"]
      suggest_meets_spec[OF example_iteration c, of 2 "''MARINE''"] example_iteration a b d
    by simp
qed

text \<open>
  C2 as stated fails for a query that is itself in the vocabulary: the term list of the
  claim then holds the query (distance 0), while \<open>suggest\<close> returns the empty list.
\<close>

theorem suggest_exact_match_counterexample:
  "suggest (SpellSuggester [''machine''] [''machine''] 2) ''machine'' 3 = Some []
   \<and> suggest_spec (vocab_of [''machine'']) 2 ''machine'' 3 = [''machine'']"
  by code_simp

text \<open>
  C10: two vocabulary sequences that have the same lowercased entries (permutations of
  each other, or differing in duplicates and case) give correctors that return the same
  result for every query and every \<open>top_k\<close>, in whatever order Python iterates the two
  vocabulary sets while it fills the buckets.
\<close>

theorem suggest_order_insensitive:
  assumes "set (map lower vocabulary1) = set (map lower vocabulary2)"
    and "iteration_of (vocab_of vocabulary1) order1"
    and "iteration_of (vocab_of vocabulary2) order2"
  shows "suggest (SpellSuggester order1 vocabulary1 md) word0 top_k
     = suggest (SpellSuggester order2 vocabulary2 md) word0 top_k"
proof -
  have V: "vocab_of vocabulary1 = vocab_of vocabulary2"
    using assms(1) by (simp only: vocab_of_alt)
  show ?thesis
  proof (cases "strip (lower word0) = [] \<or> strip (lower word0) \<in> vocab_of vocabulary1")
    case True
    then show ?thesis
      by (simp add: suggest_early SpellSuggester_def V)
  next
    case False
    then have w: "strip (lower word0) \<noteq> []" "strip (lower word0) \<notin> vocab_of vocabulary1"
      "strip (lower word0) \<notin> vocab_of vocabulary2"
      by (simp_all add: V)
    show ?thesis
      unfolding suggest_constructed[OF assms(2) refl w(1,2)]
        suggest_constructed[OF assms(3) refl w(1,3)] V ..
  qed
qed

lemma order1_ok:
  "iteration_of (vocab_of [''machine'', ''marine'', ''medicine'']) [''machine'', ''marine'', ''medicine'']"
  by code_simp

lemma order2_ok:
  "iteration_of (vocab_of [''Medicine'', ''MARINE'', ''machine'', ''marine'']) [''medicine'', ''machine'', ''marine'']"
  by code_simp

theorem suggest_order_insensitive_witness:
  "set (map lower [''machine'', ''marine'', ''medicine''])
     = set (map lower [''Medicine'', ''MARINE'', ''machine'', ''marine''])
   \<and> iteration_of (vocab_of [''machine'', ''marine'', ''medicine'']) [''machine'', ''marine'', ''medicine'']
   \<and> iteration_of (vocab_of [''Medicine'', ''MARINE'', ''machine'', ''marine'']) [''medicine'', ''machine'', ''marine'']
   \<and> suggest (SpellSuggester [''machine'', ''marine'', ''medicine''] [''machine'', ''marine'', ''medicine''] 2) ''mahcine'' 3
     = suggest (SpellSuggester [''medicine'', ''machine'', ''marine''] [''Medicine'', ''MARINE'', ''machine'', ''marine''] 2) ''mahcine'' 3"
proof -
  have a: "set (map lower [''machine'', ''marine'', ''medicine''])
     = set (map lower [''Medicine'', ''MARINE'', ''machine'', ''marine''])"
    by code_simp
  show ?thesis
    using suggest_order_insensitive[OF a order1_ok order2_ok, of 2 "''mahcine''" 3] a order1_ok order2_ok
    by simp
qed

section \<open>Input router: the trailing-space test\<close>

text \<open>The test on the last character of \<open>text\<close> has no effect, on any input.\<close>

lemma handle_input_space_test:
  "handle_input text0 trie suggester =
     (let text = strip text0 in
      if text = [] then Some NoOutput
      else
        let words = py_split text;
            last_word = (if words \<noteq> [] then last words else [])
        in do {
          spell_suggestions \<leftarrow> (if 3 \<le> length last_word then suggest suggester last_word 3 else Some []);
          Some (Suggestions (get_prefix_matches trie last_word 6) spell_suggestions)
        })"
proof (cases "strip text0 = []")
  case True
  then show ?thesis by (simp add: handle_input_def)
next
  case False
  then have "\<not> is_space (last (strip text0))" by (rule strip_last_not_space)
  then have "last (strip text0) \<noteq> CHR '' ''" by (auto simp: is_space_def)
  then show ?thesis
    using False by (simp add: handle_input_def Let_def py_index_last)
qed

text \<open>
  C1: an input with a trailing space is to yield no spell corrections. \<open>handle_input\<close>
  first replaces \<open>text\<close> by \<open>text.strip()\<close>, so the later test \<open>text[-1] != " "\<close> reads the
  trimmed text, whose last character is never a space: the test always succeeds
  (lemma \<open>handle_input_space_test\<close>). On the input "the " with the vocabulary "then" the corrector
  is invoked and its suggestion is printed.
\<close>

theorem handle_input_trailing_space:
  "handle_input ''the '' (insert_all [''then''] new_node) (SpellSuggester [''then''] [''then''] 2)
     = Some (Suggestions [''then''] [''then''])"
  by code_simp

end
